theory Spec2Isabelle
  imports Main
begin

section \<open>Shapes and ranks of nested numeric arrays (src/math/shapes.ts)\<close>

text \<open>
  The module keeps the shape of a nested array as a JavaScript array of numbers. A
  dimension is an integer-valued number and is modelled by the integer it denotes
  (\<open>int\<close>). Dimensions are copied, compared and multiplied; a product is rounded to a
  binary64 number as \<open>*\<close> does (\<open>js_mul\<close> below). The sign of zero is not modelled, and
  neither is the exponent range of binary64: a product of \<open>2^1024\<close> or more, which the code
  returns as \<open>Infinity\<close>, would need a dimension above \<open>2^170\<close> in a shape of rank at
  most 6.
\<close>

type_synonym Shape = "int list"

text \<open>The enum \<open>Rank\<close> with its six members and their numeric values.\<close>

datatype Rank = R1 | R2 | R3 | R4 | R5 | R6

fun rank_value :: "Rank \<Rightarrow> nat" where
  "rank_value R1 = 1"
| "rank_value R2 = 2"
| "rank_value R3 = 3"
| "rank_value R4 = 4"
| "rank_value R5 = 5"
| "rank_value R6 = 6"

text \<open>
  A value met while walking an \<open>ArrayMap\<close>: a number (a leaf, whose value plays no role)
  or an array of such values.
\<close>

datatype 'n elem = Num 'n | Arr "'n elem list"

subsection \<open>Multiplication of numbers\<close>

text \<open>The number of binary digits of a positive integer.\<close>

function bitlen :: "int \<Rightarrow> nat" where
  "bitlen n = (if n \<le> 0 then 0 else Suc (bitlen (n div 2)))"
  by pat_completeness auto
termination
  by (relation "measure nat") auto

declare bitlen.simps [simp del]

text \<open>
  Rounding of an integer to the nearest binary64 number, ties to the even significand.
  Every integer of magnitude up to \<open>2^53\<close> is a binary64 number. A larger one has more
  than 53 binary digits: the lowest \<open>e\<close> digits beyond the 53 leading ones are cut off
  (\<open>q\<close> is the 53-digit significand, \<open>r\<close> the part cut off) and the significand goes up by
  one when \<open>r\<close> is more than half a unit of \<open>q\<close>, or exactly half with \<open>q\<close> odd.
\<close>

definition round53 :: "int \<Rightarrow> int" where
  "round53 x =
     (if \<bar>x\<bar> \<le> 2 ^ 53 then x
      else let n = \<bar>x\<bar>;
               e = bitlen n - 53;
               q = n div 2 ^ e;
               r = n mod 2 ^ e;
               m = (if 2 * r > 2 ^ e \<or> (2 * r = 2 ^ e \<and> odd q) then q + 1 else q)
           in sgn x * (m * 2 ^ e))"

text \<open>\<open>a * b\<close> on two integer-valued numbers: the exact product, correctly rounded.\<close>

definition js_mul :: "int \<Rightarrow> int \<Rightarrow> int" where
  "js_mul a b = round53 (a * b)"

subsection \<open>inferShape\<close>

text \<open>
  \<open>elem[0]\<close>: the first entry of an array, or \<open>undefined\<close> (here \<open>None\<close>) when the array
  is empty.
\<close>

definition first_entry :: "'n elem list \<Rightarrow> 'n elem option" where
  "first_entry xs = (case xs of [] \<Rightarrow> None | x # _ \<Rightarrow> Some x)"

text \<open>
  The loop \<open>while (Array.isArray(elem)) { shape.push(elem.length); elem = elem[0]; }\<close>.
  \<open>Array.isArray\<close> is false on a number and on \<open>undefined\<close>.
\<close>

function inferShape_loop :: "'n elem option \<Rightarrow> Shape \<Rightarrow> Shape" where
  "inferShape_loop (Some (Arr xs)) shape =
     inferShape_loop (first_entry xs) (shape @ [int (length xs)])"
| "inferShape_loop (Some (Num v)) shape = shape"
| "inferShape_loop None shape = shape"
  by pat_completeness auto
termination
proof (relation "measure (\<lambda>(e, shape). case e of None \<Rightarrow> 0 | Some v \<Rightarrow> Suc (size v))")
  show "wf (measure (\<lambda>(e, shape). case e of None \<Rightarrow> 0 | Some v \<Rightarrow> Suc (size v)))"
    by simp
next
  fix xs :: "'n elem list" and shape :: Shape
  show "((first_entry xs, shape @ [int (length xs)]), (Some (Arr xs), shape))
        \<in> measure (\<lambda>(e, shape). case e of None \<Rightarrow> 0 | Some v \<Rightarrow> Suc (size v))"
    by (cases xs) (simp_all add: first_entry_def)
qed

definition inferShape :: "'n elem list \<Rightarrow> Shape" where
  "inferShape arr = inferShape_loop (Some (Arr arr)) []"

subsection \<open>shapeLength\<close>

text \<open>\<open>let length = 1; shape.forEach((i) => length *= i); return length;\<close>\<close>

definition shapeLength :: "Shape \<Rightarrow> int" where
  "shapeLength shape = fold (\<lambda>i length. js_mul length i) shape 1"

subsection \<open>toShape\<close>

text \<open>
  The loop of the collapse branch, \<open>for (let i = 1; i < shape.length + 1; i++)\<close>, with
  \<open>res\<close> passed along. Every index read or written is in range: \<open>shape.length - i\<close> lies
  in \<open>[0, shape.length)\<close> for \<open>1 \<le> i \<le> shape.length\<close>, \<open>rank - i\<close> lies in \<open>[1, rank)\<close>
  when \<open>i < rank\<close>, and position 0 exists since a rank is at least 1.
\<close>

function collapse_loop :: "Shape \<Rightarrow> nat \<Rightarrow> nat \<Rightarrow> Shape \<Rightarrow> Shape" where
  "collapse_loop shape rank i res =
     (if i < length shape + 1
      then collapse_loop shape rank (i + 1)
             (if i < rank
              then res[rank - i := shape ! (length shape - i)]
              else res[0 := js_mul (res ! 0) (shape ! (length shape - i))])
      else res)"
  by pat_completeness auto
termination
  by (relation "measure (\<lambda>(shape, rank, i, res). length shape + 1 - i)") auto

text \<open>The loop of the expand branch.\<close>

function expand_loop :: "Shape \<Rightarrow> nat \<Rightarrow> nat \<Rightarrow> Shape \<Rightarrow> Shape" where
  "expand_loop shape rank i res =
     (if i < length shape + 1
      then expand_loop shape rank (i + 1) (res[rank - i := shape ! (length shape - i)])
      else res)"
  by pat_completeness auto
termination
  by (relation "measure (\<lambda>(shape, rank, i, res). length shape + 1 - i)") auto

definition toShape :: "Shape \<Rightarrow> Rank \<Rightarrow> Shape" where
  "toShape shape rank =
     (if rank_value rank < length shape
      then collapse_loop shape (rank_value rank) 1 (replicate (rank_value rank) 1)
      else if rank_value rank > length shape
      then expand_loop shape (rank_value rank) 1 (replicate (rank_value rank) 1)
      else shape)"

definition shapeTo1D :: "Shape \<Rightarrow> Shape" where
  "shapeTo1D shape = toShape shape R1"

definition shapeTo2D :: "Shape \<Rightarrow> Shape" where
  "shapeTo2D shape = toShape shape R2"

definition shapeTo3D :: "Shape \<Rightarrow> Shape" where
  "shapeTo3D shape = toShape shape R3"

definition shapeTo4D :: "Shape \<Rightarrow> Shape" where
  "shapeTo4D shape = toShape shape R4"

subsection \<open>Bounded iteration\<close>

text \<open>
  A callback returns nothing and acts only through its effect, so it is modelled as a
  transformer of a state \<open>'s\<close> that the iteration threads through the calls in the order
  in which they happen. The loop \<open>for (let i = 0; i < length; i++) callback(i)\<close>:
\<close>

function iterate1D_loop :: "int \<Rightarrow> int \<Rightarrow> (int \<Rightarrow> 's \<Rightarrow> 's) \<Rightarrow> 's \<Rightarrow> 's" where
  "iterate1D_loop i len callback st =
     (if i < len then iterate1D_loop (i + 1) len callback (callback i st) else st)"
  by pat_completeness auto
termination
  by (relation "measure (\<lambda>(i, len, callback, st). nat (len - i))") auto

definition iterate1D :: "int \<Rightarrow> (int \<Rightarrow> 's \<Rightarrow> 's) \<Rightarrow> 's \<Rightarrow> 's" where
  "iterate1D len callback st = iterate1D_loop 0 len callback st"

text \<open>
  \<open>shape[k]\<close> is read when the enclosing callback runs. Reading past the end of the
  array gives \<open>undefined\<close>, and \<open>i < undefined\<close> is false, so a loop bounded by a missing
  entry does not run at all: \<open>iterate1D_at\<close> is \<open>iterate1D(shape[k], callback)\<close>.
\<close>

definition iterate1D_at :: "Shape \<Rightarrow> nat \<Rightarrow> (int \<Rightarrow> 's \<Rightarrow> 's) \<Rightarrow> 's \<Rightarrow> 's" where
  "iterate1D_at shape k callback st =
     (if k < length shape then iterate1D (shape ! k) callback st else st)"

definition iterate2D :: "Shape \<Rightarrow> (int \<Rightarrow> int \<Rightarrow> 's \<Rightarrow> 's) \<Rightarrow> 's \<Rightarrow> 's" where
  "iterate2D shape callback =
     iterate1D_at shape 0 (\<lambda>i. iterate1D_at shape 1 (\<lambda>j. callback i j))"

definition iterate3D :: "Shape \<Rightarrow> (int \<Rightarrow> int \<Rightarrow> int \<Rightarrow> 's \<Rightarrow> 's) \<Rightarrow> 's \<Rightarrow> 's" where
  "iterate3D shape callback =
     iterate1D_at shape 0 (\<lambda>i.
       iterate1D_at shape 1 (\<lambda>j.
         iterate1D_at shape 2 (\<lambda>k. callback i j k)))"

definition iterate4D ::
  "Shape \<Rightarrow> (int \<Rightarrow> int \<Rightarrow> int \<Rightarrow> int \<Rightarrow> 's \<Rightarrow> 's) \<Rightarrow> 's \<Rightarrow> 's" where
  "iterate4D shape callback =
     iterate1D_at shape 0 (\<lambda>i.
       iterate1D_at shape 1 (\<lambda>j.
         iterate1D_at shape 2 (\<lambda>k.
           iterate1D_at shape 3 (\<lambda>l. callback i j k l))))"

subsection \<open>Notions used to state the properties\<close>

text \<open>The Shape invariant: at least one dimension, every dimension at least 1.\<close>

definition valid_shape :: "Shape \<Rightarrow> bool" where
  "valid_shape s = (s \<noteq> [] \<and> (\<forall>d \<in> set s. 1 \<le> d))"

text \<open>
  Dimensions multiplied into 1 one at a time, the last one first, each product rounded:
  the order in which the collapse loop of \<open>toShape\<close> multiplies.
\<close>

definition leading_product :: "Shape \<Rightarrow> int" where
  "leading_product ds = foldr (\<lambda>d acc. js_mul acc d) ds 1"

text \<open>
  The lengths of the sequences met on the first-element path of a value, outermost
  first: the path ends at a number, or after an empty sequence.
\<close>

fun path_lengths :: "'n elem \<Rightarrow> nat list" where
  "path_lengths (Num v) = []"
| "path_lengths (Arr []) = [0]"
| "path_lengths (Arr (x # xs)) = Suc (length xs) # path_lengths x"

text \<open>No sequence on the first-element path is empty.\<close>

fun nonempty_path :: "'n elem \<Rightarrow> bool" where
  "nonempty_path (Num v) = True"
| "nonempty_path (Arr []) = False"
| "nonempty_path (Arr (x # xs)) = nonempty_path x"

text \<open>The number of scalar leaves of a value.\<close>

fun count_leaves :: "'n elem \<Rightarrow> nat" where
  "count_leaves (Num v) = 1"
| "count_leaves (Arr xs) = sum_list (map count_leaves xs)"

text \<open>
  A value is uniformly nested with dimensions \<open>ds\<close>: at nesting level \<open>k\<close> every sequence
  has \<open>ds ! k\<close> entries, and the numbers sit exactly below the last level.
\<close>

fun has_shape :: "nat list \<Rightarrow> 'n elem \<Rightarrow> bool" where
  "has_shape [] (Num v) = True"
| "has_shape (d # ds) (Arr xs) = (length xs = d \<and> (\<forall>x \<in> set xs. has_shape ds x))"
| "has_shape [] (Arr xs) = False"
| "has_shape (d # ds) (Num v) = False"


text \<open>
  The calls an iteration makes, in order: the iteration run with the callback that
  appends its arguments to a log, from the empty log.
\<close>

definition calls1D :: "int \<Rightarrow> int list" where
  "calls1D len = iterate1D len (\<lambda>i log. log @ [i]) []"

definition calls2D :: "Shape \<Rightarrow> (int \<times> int) list" where
  "calls2D shape = iterate2D shape (\<lambda>i j log. log @ [(i, j)]) []"

definition calls3D :: "Shape \<Rightarrow> (int \<times> int \<times> int) list" where
  "calls3D shape = iterate3D shape (\<lambda>i j k log. log @ [(i, j, k)]) []"

definition calls4D :: "Shape \<Rightarrow> (int \<times> int \<times> int \<times> int) list" where
  "calls4D shape = iterate4D shape (\<lambda>i j k l log. log @ [(i, j, k, l)]) []"

section \<open>The loops in closed form\<close>

subsection \<open>The expand loop\<close>

lemma expand_loop_eq:
  "1 \<le> i \<Longrightarrow> i \<le> length shape + 1 \<Longrightarrow> length shape \<le> rank \<Longrightarrow> length res = rank \<Longrightarrow>
   expand_loop shape rank i res =
     take (rank - length shape) res @ take (length shape + 1 - i) shape @ drop (rank + 1 - i) res"
proof (induction shape rank i res rule: expand_loop.induct)
  case (1 shape rank i res)
  let ?n = "length shape"
  show ?case
  proof (cases "i < ?n + 1")
    case False
    with "1.prems" have "i = ?n + 1" by simp
    then show ?thesis using "1.prems" by (simp add: expand_loop.simps[of shape rank i res])
  next
    case True
    let ?res' = "res[rank - i := shape ! (?n - i)]"
    have ih: "expand_loop shape rank (i + 1) ?res' =
      take (rank - ?n) ?res' @ take (?n + 1 - (i + 1)) shape @ drop (rank + 1 - (i + 1)) ?res'"
      using "1.IH"[OF True] "1.prems" True by simp
    have t1: "take (rank - ?n) ?res' = take (rank - ?n) res"
      using True "1.prems" by simp
    have t2: "take (?n + 1 - i) shape = take (?n - i) shape @ [shape ! (?n - i)]"
      using True "1.prems" by (simp add: take_Suc_conv_app_nth Suc_diff_le)
    have "rank - i < length res" using True "1.prems" by simp
    then have t3: "drop (rank - i) ?res' = shape ! (?n - i) # drop (rank + 1 - i) res"
      using True "1.prems" by (simp add: Cons_nth_drop_Suc[symmetric] Suc_diff_le)
    have "expand_loop shape rank i res = expand_loop shape rank (i + 1) ?res'"
      using True by (simp add: expand_loop.simps[of shape rank i res])
    then show ?thesis using ih t1 t2 t3 by simp
  qed
qed

subsection \<open>inferShape\<close>

lemma inferShape_loop_path:
  "inferShape_loop (Some e) shape = shape @ map int (path_lengths e)"
proof (induction e arbitrary: shape)
  case (Num v)
  show ?case by simp
next
  case (Arr xs)
  show ?case
  proof (cases xs)
    case Nil
    then show ?thesis by (simp add: first_entry_def)
  next
    case (Cons x rest)
    then have "x \<in> set xs" by simp
    from Arr[OF this] Cons show ?thesis by (simp add: first_entry_def)
  qed
qed

lemma inferShape_path: "inferShape arr = map int (path_lengths (Arr arr))"
  by (simp add: inferShape_def inferShape_loop_path)

lemma path_lengths_nonempty: "path_lengths (Arr xs) \<noteq> []"
  by (cases xs) simp_all

lemma path_lengths_pos: "(\<forall>d \<in> set (path_lengths e). 1 \<le> d) \<longleftrightarrow> nonempty_path e"
  by (induction e rule: path_lengths.induct) simp_all

lemma count_leaves_has_shape: "has_shape ds e \<Longrightarrow> count_leaves e = prod_list ds"
proof (induction ds e rule: has_shape.induct)
  case (2 d ds xs)
  then have "\<forall>x \<in> set xs. count_leaves x = prod_list ds" by simp
  then have "sum_list (map count_leaves xs) = length xs * prod_list ds"
    by (induction xs) simp_all
  with 2 show ?case by simp
qed simp_all

lemma path_prod_has_shape: "has_shape ds e \<Longrightarrow> prod_list (path_lengths e) = prod_list ds"
proof (induction ds e rule: has_shape.induct)
  case (2 d ds xs)
  then show ?case by (cases xs) auto
qed simp_all

lemma prod_list_int: "prod_list (map int ns) = int (prod_list ns)"
  by (induction ns) simp_all

subsection \<open>Iteration\<close>

lemma iterate1D_loop_fold: "iterate1D_loop i len cb st = fold cb [i..len - 1] st"
proof (induction i len cb st rule: iterate1D_loop.induct)
  case (1 i len cb st)
  show ?case
  proof (cases "i < len")
    case True
    then have "[i..len - 1] = i # [i + 1..len - 1]" by (simp add: upto_rec1)
    with True "1.IH" show ?thesis by (simp add: iterate1D_loop.simps[of i len cb st])
  next
    case False
    then show ?thesis by (simp add: iterate1D_loop.simps[of i len cb st])
  qed
qed

lemma iterate1D_fold: "iterate1D len cb st = fold cb [0..len - 1] st"
  unfolding iterate1D_def by (rule iterate1D_loop_fold)

lemma iterate1D_nothing: "len \<le> 0 \<Longrightarrow> iterate1D len cb st = st"
proof -
  assume "len \<le> 0"
  then have "[0..len - 1] = []" by (intro upto_empty) arith
  then show ?thesis by (simp only: iterate1D_fold fold_simps id_apply)
qed

lemma fold_skip: "fold (\<lambda>x s. s) xs st = st"
  by (induction xs) simp_all

lemma iterate1D_skip: "iterate1D len (\<lambda>i s. s) st = st"
  by (simp only: iterate1D_fold fold_skip)

lemma iterate1D_at_nothing:
  "k < length shape \<Longrightarrow> shape ! k \<le> 0 \<Longrightarrow> iterate1D_at shape k cb = (\<lambda>s. s)"
  by (simp add: iterate1D_at_def iterate1D_nothing fun_eq_iff)

lemma iterate1D_at_skip: "iterate1D_at shape k (\<lambda>i s. s) = (\<lambda>s. s)"
  by (simp add: iterate1D_at_def iterate1D_skip fun_eq_iff)



lemma iterate2D_nothing:
  assumes "length shape = 2" "\<exists>d \<in> set shape. d \<le> 0"
  shows "iterate2D shape cb st = st"
proof -
  obtain a b where s: "shape = [a, b]" using assms(1)
    by (cases shape; cases "tl shape") auto
  with assms(2) consider "a \<le> 0" | "b \<le> 0" by auto
  then show ?thesis
  proof cases
    case 1
    then show ?thesis using s by (simp add: iterate2D_def iterate1D_at_nothing)
  next
    case 2
    then have "iterate1D_at shape 1 (\<lambda>j. cb i j) = (\<lambda>s. s)" for i
      using s by (simp add: iterate1D_at_nothing)
    then show ?thesis by (simp add: iterate2D_def iterate1D_at_skip)
  qed
qed

lemma iterate3D_nothing:
  assumes "length shape = 3" "\<exists>d \<in> set shape. d \<le> 0"
  shows "iterate3D shape cb st = st"
proof -
  obtain a b c where s: "shape = [a, b, c]" using assms(1)
    by (cases shape; cases "tl shape"; cases "tl (tl shape)") auto
  with assms(2) consider "a \<le> 0" | "b \<le> 0" | "c \<le> 0" by auto
  then show ?thesis
  proof cases
    case 1
    then show ?thesis using s by (simp add: iterate3D_def iterate1D_at_nothing)
  next
    case 2
    then have "iterate1D_at shape 1 f = (\<lambda>s. s)" for f :: "int \<Rightarrow> 'a \<Rightarrow> 'a"
      using s by (simp add: iterate1D_at_nothing)
    then show ?thesis by (simp add: iterate3D_def iterate1D_at_skip)
  next
    case 3
    then have "iterate1D_at shape 2 f = (\<lambda>s. s)" for f :: "int \<Rightarrow> 'a \<Rightarrow> 'a"
      using s by (simp add: iterate1D_at_nothing)
    then show ?thesis by (simp add: iterate3D_def iterate1D_at_skip)
  qed
qed

lemma iterate4D_nothing:
  assumes "length shape = 4" "\<exists>d \<in> set shape. d \<le> 0"
  shows "iterate4D shape cb st = st"
proof -
  obtain a b c d where s: "shape = [a, b, c, d]" using assms(1)
    by (cases shape; cases "tl shape"; cases "tl (tl shape)"; cases "tl (tl (tl shape))") auto
  with assms(2) consider "a \<le> 0" | "b \<le> 0" | "c \<le> 0" | "d \<le> 0" by auto
  then show ?thesis
  proof cases
    case 1
    then show ?thesis using s by (simp add: iterate4D_def iterate1D_at_nothing)
  next
    case 2
    then have "iterate1D_at shape 1 f = (\<lambda>s. s)" for f :: "int \<Rightarrow> 'a \<Rightarrow> 'a"
      using s by (simp add: iterate1D_at_nothing)
    then show ?thesis by (simp add: iterate4D_def iterate1D_at_skip)
  next
    case 3
    then have "iterate1D_at shape 2 f = (\<lambda>s. s)" for f :: "int \<Rightarrow> 'a \<Rightarrow> 'a"
      using s by (simp add: iterate1D_at_nothing)
    then show ?thesis by (simp add: iterate4D_def iterate1D_at_skip)
  next
    case 4
    then have "iterate1D_at shape 3 f = (\<lambda>s. s)" for f :: "int \<Rightarrow> 'a \<Rightarrow> 'a"
      using s by (simp add: iterate1D_at_nothing)
    then show ?thesis by (simp add: iterate4D_def iterate1D_at_skip)
  qed
qed




subsection \<open>Ranks and the branches without arithmetic\<close>

lemma rank_value_range: "1 \<le> rank_value r \<and> rank_value r \<le> 6"
  by (cases r) simp_all

lemma rank_value_onto: "1 \<le> k \<Longrightarrow> k \<le> 6 \<Longrightarrow> \<exists>r. rank_value r = k"
proof -
  assume "1 \<le> k" "k \<le> 6"
  then consider "k = 1" | "k = 2" | "k = 3" | "k = 4" | "k = 5" | "k = 6" by arith
  then show ?thesis
  proof cases
    case 1 then have "rank_value R1 = k" by simp then show ?thesis ..
  next
    case 2 then have "rank_value R2 = k" by simp then show ?thesis ..
  next
    case 3 then have "rank_value R3 = k" by simp then show ?thesis ..
  next
    case 4 then have "rank_value R4 = k" by simp then show ?thesis ..
  next
    case 5 then have "rank_value R5 = k" by simp then show ?thesis ..
  next
    case 6 then have "rank_value R6 = k" by simp then show ?thesis ..
  qed
qed

lemma toShape_expand:
  assumes "length s < rank_value r"
  shows "toShape s r = replicate (rank_value r - length s) 1 @ s"
proof -
  have "expand_loop s (rank_value r) 1 (replicate (rank_value r) 1) =
      take (rank_value r - length s) (replicate (rank_value r) 1)
        @ take (length s + 1 - 1) s @ drop (rank_value r + 1 - 1) (replicate (rank_value r) 1)"
    using assms by (intro expand_loop_eq) simp_all
  then show ?thesis using assms by (simp add: toShape_def min_def)
qed

lemma toShape_same: "rank_value r = length s \<Longrightarrow> toShape s r = s"
  by (simp add: toShape_def)



subsection \<open>Rounded multiplication\<close>

lemma bitlen_lower: "0 < n \<Longrightarrow> 2 ^ bitlen n \<le> 2 * n"
proof (induction n rule: bitlen.induct)
  case (1 n)
  show ?case
  proof (cases "n div 2 \<le> 0")
    case True
    with "1.prems" have "n = 1" by arith
    then show ?thesis by (simp add: bitlen.simps[of 1] bitlen.simps[of 0])
  next
    case False
    then have "2 ^ bitlen (n div 2) \<le> 2 * (n div 2)" using "1.IH" "1.prems" by simp
    also have "\<dots> \<le> n" by simp
    finally show ?thesis using "1.prems" by (simp add: bitlen.simps[of n])
  qed
qed

lemma round53_exact: "\<bar>x\<bar> \<le> 2 ^ 53 \<Longrightarrow> round53 x = x"
  by (simp add: round53_def)

lemma pow_shift_le:
  assumes "0 < n"
  shows "(2::int) ^ (bitlen n - 53) \<le> n"
proof (cases "bitlen n < 53")
  case True
  then show ?thesis using assms by simp
next
  case False
  then have "bitlen n = (bitlen n - 53) + 53" by simp
  then have "(2::int) ^ bitlen n = 2 ^ (bitlen n - 53) * 2 ^ 53"
    by (metis power_add)
  moreover have "(2::int) ^ bitlen n \<le> 2 * n" using assms by (rule bitlen_lower)
  ultimately have a: "(2::int) ^ (bitlen n - 53) * 2 ^ 53 \<le> 2 * n" by simp
  have "(2::int) ^ (bitlen n - 53) * 2 \<le> 2 ^ (bitlen n - 53) * 2 ^ 53"
    by (intro mult_left_mono) simp_all
  from this a have "(2::int) ^ (bitlen n - 53) * 2 \<le> 2 * n" by (rule order_trans)
  then show ?thesis by simp
qed

lemma round53_ge1: "1 \<le> x \<Longrightarrow> 1 \<le> round53 x"
proof (cases "\<bar>x\<bar> \<le> 2 ^ 53")
  case True
  assume "1 \<le> x"
  with True show ?thesis by (simp only: round53_exact)
next
  case False
  assume x: "1 \<le> x"
  define n where "n = \<bar>x\<bar>"
  define e where "e = bitlen n - 53"
  define q where "q = n div 2 ^ e"
  define m where "m = (if 2 * (n mod 2 ^ e) > 2 ^ e \<or> (2 * (n mod 2 ^ e) = 2 ^ e \<and> odd q) then q + 1 else q)"
  have npos: "0 < n" using x by (simp add: n_def)
  have "(2::int) ^ e \<le> n" unfolding e_def using npos by (rule pow_shift_le)
  then have q1: "1 \<le> q" unfolding q_def
    using pos_imp_zdiv_pos_iff[of "2 ^ e" n] by simp
  have "q \<le> m" by (simp add: m_def)
  with q1 have "1 \<le> m" by simp
  moreover have "(1::int) \<le> 2 ^ e" by simp
  ultimately have "1 * 1 \<le> m * 2 ^ e" by (intro mult_mono) simp_all
  then have "1 \<le> m * 2 ^ e" by (simp only: mult_1)
  moreover have "sgn x = 1" using x by simp
  moreover have "round53 x = sgn x * (m * 2 ^ e)"
    using False unfolding round53_def Let_def n_def e_def q_def m_def by (simp only: if_False)
  ultimately show ?thesis by simp
qed

lemma js_mul_exact: "\<bar>a * b\<bar> \<le> 2 ^ 53 \<Longrightarrow> js_mul a b = a * b"
  by (simp only: js_mul_def round53_exact)

lemma js_mul_ge1: "1 \<le> a \<Longrightarrow> 1 \<le> b \<Longrightarrow> 1 \<le> js_mul a b"
proof -
  assume "1 \<le> a" "1 \<le> b"
  then have "1 * 1 \<le> a * b" by (intro mult_mono) simp_all
  then have "1 \<le> a * b" by simp
  then show ?thesis unfolding js_mul_def by (rule round53_ge1)
qed

lemma js_mul_zero_right: "js_mul a 0 = 0"
  by (simp add: js_mul_def round53_def)

lemma js_mul_zero_left: "js_mul 0 b = 0"
  by (simp add: js_mul_def round53_def)

lemma prod_list_ge1: "\<forall>d \<in> set xs. (1::int) \<le> d \<Longrightarrow> 1 \<le> prod_list xs"
proof (induction xs)
  case Nil
  show ?case by simp
next
  case (Cons x xs)
  then have "1 \<le> x" "1 \<le> prod_list xs" by simp_all
  then have "1 * 1 \<le> x * prod_list xs" by (intro mult_mono) simp_all
  then show ?case by simp
qed

text \<open>A product of factors that are at least 1 dominates each partial product.\<close>

lemma mult_ge1_mono: "(1::int) \<le> a \<Longrightarrow> 1 \<le> b \<Longrightarrow> a \<le> a * b"
proof -
  assume "1 \<le> a" "1 \<le> b"
  then have "a * 1 \<le> a * b" by (intro mult_left_mono) simp_all
  then show ?thesis by simp
qed

lemma mult_ge1: "(1::int) \<le> a \<Longrightarrow> 1 \<le> b \<Longrightarrow> 1 \<le> a * b"
proof -
  assume "1 \<le> a" "1 \<le> b"
  then have "1 * 1 \<le> a * b" by (intro mult_mono) simp_all
  then show ?thesis by simp
qed

lemma fold_js_mul_exact:
  "\<forall>d \<in> set xs. 1 \<le> d \<Longrightarrow> 1 \<le> a \<Longrightarrow> a * prod_list xs \<le> 2 ^ 53 \<Longrightarrow>
   fold (\<lambda>i length. js_mul length i) xs a = a * prod_list xs"
proof (induction xs arbitrary: a)
  case Nil
  show ?case by simp
next
  case (Cons x xs)
  have x1: "1 \<le> x" and rest: "\<forall>d \<in> set xs. 1 \<le> d" using Cons.prems(1) by simp_all
  have p1: "1 \<le> prod_list xs" using rest by (rule prod_list_ge1)
  have ax1: "1 \<le> a * x" using Cons.prems(2) x1 by (rule mult_ge1)
  have "a * x \<le> (a * x) * prod_list xs" using ax1 p1 by (rule mult_ge1_mono)
  also have "\<dots> \<le> 2 ^ 53" using Cons.prems(3) by (simp add: mult.assoc)
  finally have small: "\<bar>a * x\<bar> \<le> 2 ^ 53" using ax1 by simp
  have step: "js_mul a x = a * x" using small by (rule js_mul_exact)
  have "fold (\<lambda>i length. js_mul length i) xs (a * x) = (a * x) * prod_list xs"
    using rest ax1 Cons.prems(3) by (intro Cons.IH) (simp_all add: mult.assoc)
  then show ?case using step by (simp add: mult.assoc)
qed

lemma fold_js_mul_zero_acc: "fold (\<lambda>i length. js_mul length i) xs 0 = 0"
  by (induction xs) (simp_all add: js_mul_zero_left)

lemma fold_js_mul_zero: "0 \<in> set xs \<Longrightarrow> fold (\<lambda>i length. js_mul length i) xs a = 0"
proof (induction xs arbitrary: a)
  case Nil
  then show ?case by simp
next
  case (Cons x xs)
  show ?case
  proof (cases "x = 0")
    case True
    then show ?thesis by (simp add: js_mul_zero_right fold_js_mul_zero_acc)
  next
    case False
    with Cons.prems have "0 \<in> set xs" by simp
    then show ?thesis by (simp add: Cons.IH)
  qed
qed

lemma shapeLength_exact:
  "\<forall>d \<in> set s. 1 \<le> d \<Longrightarrow> prod_list s \<le> 2 ^ 53 \<Longrightarrow> shapeLength s = prod_list s"
  using fold_js_mul_exact[of s 1] by (simp add: shapeLength_def)

lemma shapeLength_zero: "0 \<in> set s \<Longrightarrow> shapeLength s = 0"
  by (simp add: shapeLength_def fold_js_mul_zero)

lemma foldr_js_mul_exact:
  "\<forall>d \<in> set xs. 1 \<le> d \<Longrightarrow> 1 \<le> a \<Longrightarrow> a * prod_list xs \<le> 2 ^ 53 \<Longrightarrow>
   foldr (\<lambda>d acc. js_mul acc d) xs a = a * prod_list xs"
proof (induction xs)
  case Nil
  show ?case by simp
next
  case (Cons x xs)
  have x1: "1 \<le> x" and rest: "\<forall>d \<in> set xs. 1 \<le> d" using Cons.prems(1) by simp_all
  have p1: "1 \<le> prod_list xs" using rest by (rule prod_list_ge1)
  have ap1: "1 \<le> a * prod_list xs" using Cons.prems(2) p1 by (rule mult_ge1)
  have "a * prod_list xs \<le> (a * prod_list xs) * x" using ap1 x1 by (rule mult_ge1_mono)
  also have "\<dots> = a * prod_list (x # xs)" by (simp add: mult.assoc mult.commute)
  also have "\<dots> \<le> 2 ^ 53" by (rule Cons.prems(3))
  finally have b: "a * prod_list xs \<le> 2 ^ 53" .
  have ih: "foldr (\<lambda>d acc. js_mul acc d) xs a = a * prod_list xs"
    using rest Cons.prems(2) b by (rule Cons.IH)
  have eq: "(a * prod_list xs) * x = a * prod_list (x # xs)" by (simp add: mult.assoc mult.commute)
  have "1 \<le> (a * prod_list xs) * x" using ap1 x1 by (rule mult_ge1)
  moreover have "(a * prod_list xs) * x \<le> 2 ^ 53" using Cons.prems(3) by (simp only: eq)
  ultimately have small: "\<bar>(a * prod_list xs) * x\<bar> \<le> 2 ^ 53" by simp
  have "js_mul (a * prod_list xs) x = (a * prod_list xs) * x" using small by (rule js_mul_exact)
  then show ?case using ih by (simp add: mult.assoc mult.commute)
qed

lemma foldr_js_mul_ge1:
  "\<forall>d \<in> set xs. 1 \<le> d \<Longrightarrow> 1 \<le> a \<Longrightarrow> 1 \<le> foldr (\<lambda>d acc. js_mul acc d) xs a"
  by (induction xs) (simp_all add: js_mul_ge1)

lemma leading_product_exact:
  "\<forall>d \<in> set ds. 1 \<le> d \<Longrightarrow> prod_list ds \<le> 2 ^ 53 \<Longrightarrow> leading_product ds = prod_list ds"
  using foldr_js_mul_exact[of ds 1] by (simp add: leading_product_def)

lemma leading_product_ge1: "\<forall>d \<in> set ds. 1 \<le> d \<Longrightarrow> 1 \<le> leading_product ds"
  by (simp add: leading_product_def foldr_js_mul_ge1)

subsection \<open>The collapse loop, exact products and validity\<close>

text \<open>Second phase of the collapse loop (\<open>rank \<le> i\<close>): everything goes into position 0.\<close>

lemma collapse_loop_tail:
  "1 \<le> i \<Longrightarrow> rank \<le> i \<Longrightarrow> i \<le> length shape + 1 \<Longrightarrow> res \<noteq> [] \<Longrightarrow>
   collapse_loop shape rank i res =
     foldr (\<lambda>d acc. js_mul acc d) (take (length shape + 1 - i) shape) (hd res) # tl res"
proof (induction shape rank i res rule: collapse_loop.induct)
  case (1 shape rank i res)
  let ?n = "length shape"
  show ?case
  proof (cases "i < ?n + 1")
    case False
    with "1.prems" have "i = ?n + 1" by simp
    then show ?thesis using "1.prems" by (simp add: collapse_loop.simps[of shape rank i res])
  next
    case True
    let ?res' = "res[0 := js_mul (res ! 0) (shape ! (?n - i))]"
    obtain a rest where res: "res = a # rest" using "1.prems" by (cases res) auto
    have step: "collapse_loop shape rank i res = collapse_loop shape rank (i + 1) ?res'"
      using True "1.prems" by (simp add: collapse_loop.simps[of shape rank i res])
    have ih: "collapse_loop shape rank (i + 1) ?res' =
        foldr (\<lambda>d acc. js_mul acc d) (take (?n + 1 - (i + 1)) shape) (hd ?res') # tl ?res'"
      using "1.IH"[OF True] "1.prems" True by simp
    have "?n - i < ?n" using True "1.prems" by simp
    then have "take (Suc (?n - i)) shape = take (?n - i) shape @ [shape ! (?n - i)]"
      by (rule take_Suc_conv_app_nth)
    moreover have "Suc (?n - i) = ?n + 1 - i" using True by simp
    ultimately have t: "take (?n + 1 - i) shape = take (?n - i) shape @ [shape ! (?n - i)]"
      by simp
    have hd': "hd ?res' = js_mul (hd res) (shape ! (?n - i))" and tl': "tl ?res' = tl res"
      using res by simp_all
    have "?n + 1 - (i + 1) = ?n - i" by simp
    then have "foldr (\<lambda>d acc. js_mul acc d) (take (?n + 1 - (i + 1)) shape) (hd ?res') # tl ?res' =
        foldr (\<lambda>d acc. js_mul acc d) (take (?n - i) shape) (js_mul (hd res) (shape ! (?n - i))) # tl res"
      by (simp only: hd' tl')
    also have "\<dots> = foldr (\<lambda>d acc. js_mul acc d) (take (?n + 1 - i) shape) (hd res) # tl res"
      by (simp only: t foldr_append foldr.simps comp_apply id_apply)
    finally show ?thesis using step ih by (simp only:)
  qed
qed

lemma collapse_loop_eq:
  "1 \<le> i \<Longrightarrow> i \<le> rank \<Longrightarrow> rank \<le> length shape \<Longrightarrow> length res = rank \<Longrightarrow>
   collapse_loop shape rank i res =
     foldr (\<lambda>d acc. js_mul acc d) (take (length shape + 1 - rank) shape) (hd res)
       # take (rank - i) (drop (length shape + 1 - rank) shape) @ drop (rank + 1 - i) res"
proof (induction shape rank i res rule: collapse_loop.induct)
  case (1 shape rank i res)
  let ?n = "length shape"
  have ne: "res \<noteq> []" using "1.prems" by auto
  show ?case
  proof (cases "i < rank")
    case False
    with "1.prems" have "i = rank" by simp
    then show ?thesis
      using collapse_loop_tail[of rank i shape res] "1.prems" ne by (simp add: drop_Suc)
  next
    case True
    then have lt: "i < ?n + 1" using "1.prems" by simp
    let ?res' = "res[rank - i := shape ! (?n - i)]"
    have step: "collapse_loop shape rank i res = collapse_loop shape rank (i + 1) ?res'"
      using True lt by (simp add: collapse_loop.simps[of shape rank i res])
    have ih: "collapse_loop shape rank (i + 1) ?res' =
        foldr (\<lambda>d acc. js_mul acc d) (take (?n + 1 - rank) shape) (hd ?res')
          # take (rank - (i + 1)) (drop (?n + 1 - rank) shape) @ drop (rank + 1 - (i + 1)) ?res'"
      using "1.IH"[OF lt] "1.prems" True by simp
    have h: "hd ?res' = hd res" using True "1.prems" by (cases res) (auto simp: nth_Cons' split: nat.splits)
    have "rank - i < length res" using True "1.prems" by simp
    then have d: "drop (rank - i) ?res' = shape ! (?n - i) # drop (rank + 1 - i) res"
      using True "1.prems" by (simp add: Cons_nth_drop_Suc[symmetric] Suc_diff_le)
    have "rank - (i + 1) < length (drop (?n + 1 - rank) shape)" using True "1.prems" by simp
    then have "take (Suc (rank - (i + 1))) (drop (?n + 1 - rank) shape) =
        take (rank - (i + 1)) (drop (?n + 1 - rank) shape) @ [drop (?n + 1 - rank) shape ! (rank - (i + 1))]"
      by (rule take_Suc_conv_app_nth)
    moreover have "drop (?n + 1 - rank) shape ! (rank - (i + 1)) = shape ! (?n - i)"
      using True "1.prems" by simp
    moreover have "Suc (rank - (i + 1)) = rank - i" using True by simp
    ultimately have t: "take (rank - i) (drop (?n + 1 - rank) shape) =
        take (rank - (i + 1)) (drop (?n + 1 - rank) shape) @ [shape ! (?n - i)]"
      by simp
    show ?thesis using step ih h d t by simp
  qed
qed

lemma toShape_collapse:
  assumes "rank_value r < length s"
  shows "toShape s r =
    leading_product (take (length s - rank_value r + 1) s) # drop (length s - rank_value r + 1) s"
proof -
  have r1: "1 \<le> rank_value r" by (cases r) simp_all
  have "collapse_loop s (rank_value r) 1 (replicate (rank_value r) 1) =
     foldr (\<lambda>d acc. js_mul acc d) (take (length s + 1 - rank_value r) s)
        (hd (replicate (rank_value r) (1::int)))
       # take (rank_value r - 1) (drop (length s + 1 - rank_value r) s)
       @ drop (rank_value r + 1 - 1) (replicate (rank_value r) 1)"
    using assms r1 by (intro collapse_loop_eq) simp_all
  moreover have "hd (replicate (rank_value r) (1::int)) = 1" using r1 by (cases "rank_value r") simp_all
  moreover have "length s + 1 - rank_value r = length s - rank_value r + 1" using assms by simp
  ultimately show ?thesis using assms by (simp add: toShape_def leading_product_def)
qed



lemma toShape_valid: "valid_shape s \<Longrightarrow> valid_shape (toShape s r)"
proof -
  assume v: "valid_shape s"
  consider "rank_value r < length s" | "length s < rank_value r" | "rank_value r = length s"
    by arith
  then show ?thesis
  proof cases
    case 1
    let ?k = "length s - rank_value r + 1"
    have "\<forall>d \<in> set (take ?k s). 1 \<le> d" using v by (auto simp: valid_shape_def dest: in_set_takeD)
    then have "1 \<le> leading_product (take ?k s)" by (rule leading_product_ge1)
    moreover have "\<forall>d \<in> set (drop ?k s). 1 \<le> d" using v by (auto simp: valid_shape_def dest: in_set_dropD)
    ultimately show ?thesis using 1 by (simp add: toShape_collapse valid_shape_def)
  next
    case 2
    then show ?thesis using v by (auto simp: toShape_expand valid_shape_def)
  next
    case 3
    then show ?thesis using v by (simp add: toShape_same)
  qed
qed

lemma shapeLength_nat_exact:
  assumes "int (prod_list ns) \<le> 2 ^ 53"
  shows "shapeLength (map int ns) = int (prod_list ns)"
proof (cases "0 \<in> set ns")
  case True
  then have "(0::int) \<in> set (map int ns)" by force
  then have "shapeLength (map int ns) = 0" by (rule shapeLength_zero)
  moreover have "prod_list ns = 0" using True by (simp add: prod_list_zero_iff)
  ultimately show ?thesis by simp
next
  case False
  then have "\<forall>d \<in> set (map int ns). 1 \<le> d" by (auto simp: Suc_le_eq) (metis not_gr_zero)
  moreover have "prod_list (map int ns) \<le> 2 ^ 53" using assms by (simp only: prod_list_int)
  ultimately have "shapeLength (map int ns) = prod_list (map int ns)" by (rule shapeLength_exact)
  then show ?thesis by (simp only: prod_list_int)
qed

subsection \<open>Arrays filled with one element\<close>

text \<open>An array filled with one element \<open>d\<close> times, as \<open>new Array(d).fill(x)\<close> builds it.\<close>

lemma has_shape_replicate: "has_shape ds x \<Longrightarrow> has_shape (d # ds) (Arr (replicate d x))"
  by simp

lemma count_leaves_replicate: "count_leaves (Arr (replicate d x)) = d * count_leaves x"
  by (simp add: sum_list_replicate)

lemma path_lengths_replicate:
  "0 < d \<Longrightarrow> path_lengths (Arr (replicate d x)) = d # path_lengths x"
  by (cases d) simp_all

section \<open>The properties of the specification\<close>

text \<open>
  A target rank is a member of \<open>Rank\<close>, so it ranges over exactly the values 1 to 6
  (\<open>rank_value_range\<close>, \<open>rank_value_onto\<close>).
\<close>

subsection \<open>Rank conversion\<close>




text \<open>
  \<^bold>\<open>C2\<close> says that after a collapse position 0 holds the product of the leading source
  dimensions. The loop multiplies them one at a time with rounding: for
  \<open>[94906267, 94906267, 5]\<close> and rank 2 position 0 holds \<open>9007199515875288\<close>, while the
  product of the two leading dimensions is \<open>9007199515875289\<close>.
\<close>

theorem collapse_product_rounded:
  "rank_value R2 < length [94906267, 94906267, 5 :: int]
   \<and> toShape [94906267, 94906267, 5] R2 = [9007199515875288, 5]
   \<and> prod_list (take (length [94906267, 94906267, 5 :: int] - rank_value R2 + 1) [94906267, 94906267, 5 :: int])
       = 9007199515875289
   \<and> toShape [94906267, 94906267, 5] R2 ! 0
       \<noteq> prod_list (take (length [94906267, 94906267, 5 :: int] - rank_value R2 + 1) [94906267, 94906267, 5])"
proof -
  have a: "toShape [94906267, 94906267, 5] R2 = [9007199515875288, 5]" by code_simp
  have b: "prod_list (take (length [94906267, 94906267, 5 :: int] - rank_value R2 + 1)
      [94906267, 94906267, 5 :: int]) = 9007199515875289" by simp
  show ?thesis by (simp only: a b) simp
qed

text \<open>
  \<^bold>\<open>C2\<close>, amended. Collapse: for a source shape \<open>s\<close> of length \<open>n\<close> and a target rank
  \<open>r < n\<close>, the result has \<open>r\<close> entries; the innermost \<open>r - 1\<close> source dimensions
  keep their places, right-aligned (result position \<open>j\<close>, for \<open>1 \<le> j < r\<close>, holds source
  position \<open>n - r + j\<close>), and the \<open>n - r + 1\<close> leading source dimensions are multiplied
  cumulatively, the innermost of them first, into position 0. Position 0 holds their
  product whenever these dimensions are at least 1 and their product is at most \<open>2^53\<close>.
  In particular \<open>toShape [1,2,3] R2 = [2,3]\<close>.
\<close>

theorem toShape_collapse_layout:
  "(rank_value r < length s \<longrightarrow>
      length (toShape s r) = rank_value r
    \<and> (\<forall>j. 1 \<le> j \<and> j < rank_value r \<longrightarrow> toShape s r ! j = s ! (length s - rank_value r + j))
    \<and> toShape s r ! 0 = leading_product (take (length s - rank_value r + 1) s)
    \<and> toShape s r = leading_product (take (length s - rank_value r + 1) s)
                      # drop (length s - rank_value r + 1) s
    \<and> ((\<forall>d \<in> set (take (length s - rank_value r + 1) s). 1 \<le> d)
         \<and> prod_list (take (length s - rank_value r + 1) s) \<le> 2 ^ 53
       \<longrightarrow> toShape s r ! 0 = prod_list (take (length s - rank_value r + 1) s)))
   \<and> toShape [1, 2, 3] R2 = [2, 3]"
proof -
  have ex: "toShape [1, 2, 3] R2 = [2, 3]" by code_simp
  have pos: "toShape s r ! j = s ! (length s - rank_value r + j)"
    if lt: "rank_value r < length s" and j1: "1 \<le> j" and jr: "j < rank_value r" for j
  proof -
    obtain j' where j: "j = Suc j'" using j1 by (cases j) simp_all
    have "length s - rank_value r + 1 + j' \<le> length s" using lt jr j by simp
    then show ?thesis using lt j by (simp add: toShape_collapse)
  qed
  have len: "length (toShape s r) = rank_value r" if "rank_value r < length s"
    using that rank_value_range[of r] by (simp add: toShape_collapse)
  have hd: "toShape s r ! 0 = leading_product (take (length s - rank_value r + 1) s)"
    if "rank_value r < length s"
    using that by (simp add: toShape_collapse)
  have exact: "toShape s r ! 0 = prod_list (take (length s - rank_value r + 1) s)"
    if "rank_value r < length s"
      and "\<forall>d \<in> set (take (length s - rank_value r + 1) s). 1 \<le> d"
      and "prod_list (take (length s - rank_value r + 1) s) \<le> 2 ^ 53"
    using that hd leading_product_exact by simp
  show ?thesis using ex pos len hd exact toShape_collapse[of r s] by blast
qed

text \<open>
  The theorem at \<open>[4,5,2,3]\<close> collapsed to rank 3.
\<close>

theorem toShape_collapse_layout_witness:
  "rank_value R3 < length [4, 5, 2, 3 :: int]
   \<and> (1::int) \<le> 4 \<and> (1::int) \<le> 5
   \<and> prod_list (take 2 [4, 5, 2, 3 :: int]) \<le> 2 ^ 53
   \<and> toShape [4, 5, 2, 3] R3 ! 0 = 20
   \<and> toShape [4, 5, 2, 3] R3 ! 1 = 2
   \<and> toShape [4, 5, 2, 3] R3 ! 2 = 3"
proof -
  have h: "rank_value R3 < length [4, 5, 2, 3 :: int]" by simp
  have k: "length [4, 5, 2, 3 :: int] - rank_value R3 + 1 = 2" by simp
  have v: "\<forall>d \<in> set (take 2 [4, 5, 2, 3 :: int]). 1 \<le> d" by simp
  have b: "prod_list (take 2 [4, 5, 2, 3 :: int]) \<le> 2 ^ 53" by simp
  note t = toShape_collapse_layout[of R3 "[4, 5, 2, 3]", THEN conjunct1, rule_format, OF h, unfolded k]
  have p0: "toShape [4, 5, 2, 3] R3 ! 0 = prod_list (take 2 [4, 5, 2, 3])"
    using t v b by blast
  have pj: "\<forall>j. 1 \<le> j \<and> j < rank_value R3 \<longrightarrow> toShape [4, 5, 2, 3] R3 ! j = [4, 5, 2, 3] ! (length [4, 5, 2, 3 :: int] - rank_value R3 + j)"
    using t by blast
  have p1: "toShape [4, 5, 2, 3] R3 ! 1 = 2" using pj[rule_format, of 1] by simp
  have p2: "toShape [4, 5, 2, 3] R3 ! 2 = 3" using pj[rule_format, of 2] by simp
  from h v b p0 p1 p2 show ?thesis by simp
qed

text \<open>
  \<^bold>\<open>C3\<close> says, with the examples in the documentation of \<open>toShape\<close> and \<open>shapeTo1D\<close>,
  that \<open>toShape [1,2,3] R1\<close> is \<open>[1]\<close>. The code at this input: with target rank 1 the
  test \<open>i < rank\<close> never holds, every source dimension is multiplied into position 0, and
  the result is \<open>[6]\<close>.
\<close>

theorem collapse_123_to_rank1: "toShape [1, 2, 3] R1 = [6]"
  by code_simp

text \<open>
  \<^bold>\<open>C4\<close>. Expand: for a source shape \<open>s\<close> of length \<open>n\<close> and a target rank \<open>r > n\<close>,
  the result has \<open>r\<close> entries: \<open>r - n\<close> leading ones followed by the source dimensions
  in their order. In particular \<open>toShape [1,2,3] R4 = [1,1,2,3]\<close>.
\<close>

theorem toShape_expand_layout:
  "(length s < rank_value r \<longrightarrow>
      length (toShape s r) = rank_value r
    \<and> toShape s r = replicate (rank_value r - length s) 1 @ s)
   \<and> toShape [1, 2, 3] R4 = [1, 1, 2, 3]"
  by (simp add: toShape_expand)

text \<open>
  The theorem at \<open>[2,3]\<close> expanded to rank 5.
\<close>

theorem toShape_expand_layout_witness:
  "length [2, 3 :: int] < rank_value R5 \<and> toShape [2, 3] R5 = [1, 1, 1, 2, 3]"
proof -
  have h: "length [2, 3 :: int] < rank_value R5" by simp
  from toShape_expand_layout[of "[2, 3]" R5] h
  have "toShape [2, 3] R5 = replicate (rank_value R5 - length [2, 3 :: int]) 1 @ [2, 3]"
    by blast
  then show ?thesis by (simp add: numeral_eq_Suc)
qed

text \<open>
  \<^bold>\<open>C5\<close>. For every valid shape \<open>s\<close> and target rank \<open>r\<close> equal to the length of \<open>s\<close>,
  \<open>toShape s r\<close> is \<open>s\<close> itself.
\<close>

theorem toShape_same_rank:
  "valid_shape s \<Longrightarrow> rank_value r = length s \<Longrightarrow> toShape s r = s"
  by (rule toShape_same)

text \<open>
  The theorem at \<open>[1,2,3]\<close> and rank 3.
\<close>

theorem toShape_same_rank_witness:
  "valid_shape [1, 2, 3] \<and> rank_value R3 = length [1, 2, 3 :: int] \<and> toShape [1, 2, 3] R3 = [1, 2, 3]"
proof -
  have v: "valid_shape [1, 2, 3]" by (simp add: valid_shape_def)
  have h: "rank_value R3 = length [1, 2, 3 :: int]" by simp
  from toShape_same_rank[OF v h] v h show ?thesis by simp
qed

subsection \<open>Shape inference\<close>

text \<open>
  \<^bold>\<open>C6\<close> says that every shape produced by \<open>inferShape\<close> or \<open>toShape\<close> satisfies the
  Shape invariant. \<open>inferShape\<close> breaks it on the empty array, whose shape is \<open>[0]\<close>.
\<close>

theorem empty_array_shape_invalid: "\<not> valid_shape (inferShape ([] :: int elem list))"
  by (simp add: inferShape_path valid_shape_def)

text \<open>
  \<^bold>\<open>C6\<close>, amended: \<open>toShape\<close> maps a valid shape and any rank to a valid shape; a
  shape produced by \<open>inferShape\<close> is non-empty and has no negative entry, and it
  satisfies the Shape invariant exactly when no sequence on the first-element path of
  the input is empty.
\<close>

theorem produced_shapes:
  "(valid_shape s \<longrightarrow> valid_shape (toShape s r))
   \<and> inferShape arr \<noteq> []
   \<and> (\<forall>d \<in> set (inferShape arr). 0 \<le> d)
   \<and> (valid_shape (inferShape arr) \<longleftrightarrow> nonempty_path (Arr arr))"
proof -
  have "valid_shape (inferShape arr) \<longleftrightarrow> (\<forall>d \<in> set (path_lengths (Arr arr)). 1 \<le> d)"
    by (simp add: inferShape_path valid_shape_def path_lengths_nonempty)
  then have "valid_shape (inferShape arr) \<longleftrightarrow> nonempty_path (Arr arr)"
    by (simp only: path_lengths_pos)
  moreover have "inferShape arr \<noteq> []"
    by (simp add: inferShape_path path_lengths_nonempty)
  moreover have "\<forall>d \<in> set (inferShape arr). 0 \<le> d"
    by (simp add: inferShape_path)
  ultimately show ?thesis using toShape_valid[of s r] by blast
qed

text \<open>
  The theorem at the valid shape \<open>[4,5,2,3]\<close> with rank 2 and at a 3 by 2 array.
\<close>

theorem produced_shapes_witness:
  "valid_shape [4, 5, 2, 3] \<and> valid_shape (toShape [4, 5, 2, 3] R2)
   \<and> nonempty_path (Arr [Arr [Num (1::int), Num 2], Arr [Num 3, Num 4], Arr [Num 5, Num 6]])
   \<and> valid_shape (inferShape [Arr [Num (1::int), Num 2], Arr [Num 3, Num 4], Arr [Num 5, Num 6]])"
proof -
  have v: "valid_shape [4, 5, 2, 3]" by (simp add: valid_shape_def)
  have n: "nonempty_path (Arr [Arr [Num (1::int), Num 2], Arr [Num 3, Num 4], Arr [Num 5, Num 6]])"
    by simp
  from produced_shapes[of "[4, 5, 2, 3]" R2 "[Arr [Num (1::int), Num 2], Arr [Num 3, Num 4], Arr [Num 5, Num 6]]"]
    v n show ?thesis by blast
qed

text \<open>
  \<^bold>\<open>C7\<close>. \<open>inferShape\<close> of the empty outermost sequence is exactly \<open>[0]\<close>: the length 0
  is recorded, \<open>elem[0]\<close> is \<open>undefined\<close>, and the loop stops.
\<close>

theorem inferShape_empty: "inferShape [] = [0]"
  by (simp add: inferShape_def first_entry_def)

text \<open>
  \<^bold>\<open>C8\<close> says that \<open>shapeLength (inferShape x)\<close> is the number of scalar leaves of a
  uniformly nested \<open>x\<close>. The product is rounded beyond \<open>2^53\<close>: an array of 94906267
  rows that are one shared row of 94906267 numbers has \<open>9007199515875289\<close> leaves, and
  the count computed from its shape is \<open>9007199515875288\<close>.
\<close>

theorem leaf_count_rounded:
  "has_shape [94906267, 94906267]
     (Arr (replicate 94906267 (Arr (replicate 94906267 (Num (0::int))))))
   \<and> int (count_leaves (Arr (replicate 94906267 (Arr (replicate 94906267 (Num (0::int)))))))
       = 9007199515875289
   \<and> shapeLength (inferShape (replicate 94906267 (Arr (replicate 94906267 (Num (0::int))))))
       = 9007199515875288
   \<and> shapeLength (inferShape (replicate 94906267 (Arr (replicate 94906267 (Num (0::int))))))
       \<noteq> int (count_leaves (Arr (replicate 94906267 (Arr (replicate 94906267 (Num (0::int)))))))"
proof -
  let ?row = "Arr (replicate 94906267 (Num (0::int)))"
  have "has_shape [] (Num (0::int))" by simp
  then have "has_shape [94906267] ?row" by (rule has_shape_replicate)
  then have h: "has_shape [94906267, 94906267] (Arr (replicate 94906267 ?row))"
    by (rule has_shape_replicate)
  have "count_leaves (Arr (replicate 94906267 ?row)) = 94906267 * (94906267 * 1)"
    by (simp only: count_leaves_replicate[of 94906267 ?row]
        count_leaves_replicate[of 94906267 "Num (0::int)"] count_leaves.simps(1))
  then have c: "int (count_leaves (Arr (replicate 94906267 ?row))) = 9007199515875289"
    by simp
  have "path_lengths (Arr (replicate 94906267 ?row)) = [94906267, 94906267]"
    by (simp only: path_lengths_replicate[of 94906267 ?row, simplified]
        path_lengths_replicate[of 94906267 "Num (0::int)", simplified] path_lengths.simps(1))
  then have "inferShape (replicate 94906267 ?row) = [94906267, 94906267]"
    by (simp add: inferShape_path)
  moreover have "shapeLength [94906267, 94906267] = 9007199515875288" by code_simp
  ultimately have s: "shapeLength (inferShape (replicate 94906267 ?row)) = 9007199515875288"
    by (simp only:)
  show ?thesis by (simp only: h c s) simp
qed

text \<open>
  \<^bold>\<open>C8\<close>, amended: \<open>inferShape x\<close> is the list of the sequence lengths on the
  first-element path of \<open>x\<close>, and \<open>shapeLength (inferShape x)\<close> is their product whenever
  that product is at most \<open>2^53\<close>; for a uniformly nested \<open>x\<close> (of any depth, with
  dimensions \<open>ds\<close>) with at most \<open>2^53\<close> scalar leaves it is the number of leaves of
  \<open>x\<close>.
\<close>

theorem shapeLength_inferShape:
  "inferShape arr = map int (path_lengths (Arr arr))
   \<and> (int (prod_list (path_lengths (Arr arr))) \<le> 2 ^ 53 \<longrightarrow>
        shapeLength (inferShape arr) = int (prod_list (path_lengths (Arr arr))))
   \<and> (has_shape ds (Arr arr) \<and> int (count_leaves (Arr arr)) \<le> 2 ^ 53 \<longrightarrow>
        shapeLength (inferShape arr) = int (count_leaves (Arr arr)))"
proof -
  have i: "inferShape arr = map int (path_lengths (Arr arr))" by (rule inferShape_path)
  have p: "shapeLength (inferShape arr) = int (prod_list (path_lengths (Arr arr)))"
    if "int (prod_list (path_lengths (Arr arr))) \<le> 2 ^ 53"
    using that by (simp only: i shapeLength_nat_exact)
  have "shapeLength (inferShape arr) = int (count_leaves (Arr arr))"
    if h: "has_shape ds (Arr arr)" and b: "int (count_leaves (Arr arr)) \<le> 2 ^ 53"
  proof -
    have "prod_list (path_lengths (Arr arr)) = count_leaves (Arr arr)"
      using path_prod_has_shape[OF h] count_leaves_has_shape[OF h] by simp
    then show ?thesis using p b by simp
  qed
  with i p show ?thesis by blast
qed

text \<open>
  The theorem at the 3 by 2 array \<open>[[1,2],[3,4],[5,6]]\<close>.
\<close>

theorem shapeLength_inferShape_witness:
  "has_shape [3, 2] (Arr [Arr [Num (1::int), Num 2], Arr [Num 3, Num 4], Arr [Num 5, Num 6]])
   \<and> int (count_leaves (Arr [Arr [Num (1::int), Num 2], Arr [Num 3, Num 4], Arr [Num 5, Num 6]])) \<le> 2 ^ 53
   \<and> count_leaves (Arr [Arr [Num (1::int), Num 2], Arr [Num 3, Num 4], Arr [Num 5, Num 6]]) = 6
   \<and> shapeLength (inferShape [Arr [Num (1::int), Num 2], Arr [Num 3, Num 4], Arr [Num 5, Num 6]]) = 6"
proof -
  let ?x = "[Arr [Num (1::int), Num 2], Arr [Num 3, Num 4], Arr [Num 5, Num 6]]"
  have h: "has_shape [3, 2] (Arr ?x)" by simp
  have c: "count_leaves (Arr ?x) = 6" by simp
  then have b: "int (count_leaves (Arr ?x)) \<le> 2 ^ 53" by simp
  have "shapeLength (inferShape ?x) = int (count_leaves (Arr ?x))"
    using shapeLength_inferShape[of ?x "[3, 2]"] h b by blast
  with h b c show ?thesis by simp
qed

subsection \<open>Iteration\<close>



text \<open>
  \<^bold>\<open>C10\<close>. \<open>iterate1D\<close> with a length \<open>\<le> 0\<close> calls its callback zero times, and so
  do \<open>iterate2D\<close>, \<open>iterate3D\<close> and \<open>iterate4D\<close> on a shape (of their rank) with some
  dimension \<open>\<le> 0\<close>: the state comes back unchanged whatever the callback is, and the
  log of calls is empty. The same holds for the only dimension of the shape inferred
  from an empty array.
\<close>

theorem iterate_nothing:
  "(len \<le> 0 \<longrightarrow> iterate1D len cb1 st = st \<and> calls1D len = [])
   \<and> (length s2 = 2 \<and> (\<exists>d \<in> set s2. d \<le> 0) \<longrightarrow> iterate2D s2 cb2 st = st \<and> calls2D s2 = [])
   \<and> (length s3 = 3 \<and> (\<exists>d \<in> set s3. d \<le> 0) \<longrightarrow> iterate3D s3 cb3 st = st \<and> calls3D s3 = [])
   \<and> (length s4 = 4 \<and> (\<exists>d \<in> set s4. d \<le> 0) \<longrightarrow> iterate4D s4 cb4 st = st \<and> calls4D s4 = [])
   \<and> calls1D (inferShape ([] :: 'n elem list) ! 0) = []"
proof -
  have "calls1D (inferShape ([] :: 'n elem list) ! 0) = []"
    by (simp add: calls1D_def inferShape_def first_entry_def iterate1D_nothing)
  moreover have "iterate1D len cb1 st = st \<and> calls1D len = []" if "len \<le> 0"
    using that unfolding calls1D_def by (simp only: iterate1D_nothing simp_thms)
  moreover have "iterate2D s2 cb2 st = st \<and> calls2D s2 = []"
    if "length s2 = 2 \<and> (\<exists>d \<in> set s2. d \<le> 0)"
    using that unfolding calls2D_def by (simp only: iterate2D_nothing simp_thms)
  moreover have "iterate3D s3 cb3 st = st \<and> calls3D s3 = []"
    if "length s3 = 3 \<and> (\<exists>d \<in> set s3. d \<le> 0)"
    using that unfolding calls3D_def by (simp only: iterate3D_nothing simp_thms)
  moreover have "iterate4D s4 cb4 st = st \<and> calls4D s4 = []"
    if "length s4 = 4 \<and> (\<exists>d \<in> set s4. d \<le> 0)"
    using that unfolding calls4D_def by (simp only: iterate4D_nothing simp_thms)
  ultimately show ?thesis by blast
qed

text \<open>
  The theorem at length \<open>-3\<close> and at the shapes \<open>[2,0]\<close>, \<open>[2,0,3]\<close> and \<open>[1,2,3,-1]\<close>.
\<close>

theorem iterate_nothing_witness:
  "calls1D (- 3) = [] \<and> calls2D [2, 0] = [] \<and> calls3D [2, 0, 3] = [] \<and> calls4D [1, 2, 3, - 1] = []"
proof -
  have "(- 3 :: int) \<le> 0" by simp
  moreover have "length [2, 0 :: int] = 2 \<and> (\<exists>d \<in> set [2, 0 :: int]. d \<le> 0)" by simp
  moreover have "length [2, 0, 3 :: int] = 3 \<and> (\<exists>d \<in> set [2, 0, 3 :: int]. d \<le> 0)" by simp
  moreover have "length [1, 2, 3, - 1 :: int] = 4 \<and> (\<exists>d \<in> set [1, 2, 3, - 1 :: int]. d \<le> 0)" by simp
  ultimately show ?thesis
    using iterate_nothing[where len = "- 3" and ?s2.0 = "[2, 0]" and ?s3.0 = "[2, 0, 3]"
        and ?s4.0 = "[1, 2, 3, - 1]" and st = "()" and ?cb1.0 = "\<lambda>i s. s"
        and ?cb2.0 = "\<lambda>i j s. s" and ?cb3.0 = "\<lambda>i j k s. s" and ?cb4.0 = "\<lambda>i j k l s. s"]
    by blast
qed

end
